theory Spec2Isabelle
  imports Main
begin

section \<open>Values of the program\<close>

text \<open>
  The errors that can leave \<open>discover\<close> and \<open>configure\<close>: the TypeError of calling
  \<open>map\<close> on a value that has none, the Error of the flow-control library when the
  callback of one item is called a second time, whatever an authorization check throws
  by itself, and whatever a listener of the page throws when it is called.
\<close>

datatype error = TypeError | Callback_already_called | Authorize_error string | Listener_error string

datatype 'a completion = Returns 'a | Throws error

text \<open>
  An authorization check is the method \<open>authorize(req, done)\<close> of a pagelet. What the page
  sees of it is the uses it makes of \<open>done\<close>, in order: \<open>Call v\<close> is a call \<open>done(v)\<close>
  before the check returns, \<open>Call_later v\<close> a call it leaves to a later turn of the event
  loop, \<open>Raise e\<close> the exception that ends it (what follows a \<open>Raise\<close> never happens). A
  check may use \<open>done\<close> any number of times, or never. It does not catch what \<open>done\<close>
  throws. The request is \<open>None\<close> when the caller passed none (\<open>undefined\<close>).
\<close>

datatype use = Call bool | Call_later bool | Raise error

type_synonym 'r authorize = "'r option \<Rightarrow> use list"

text \<open>
  A pagelet instance is an object: \<open>ident\<close> is its identity (what \<open>===\<close> and \<open>indexOf\<close>
  compare), \<open>authorize\<close> its optional check (\<open>'function' === typeof pagelet.authorize\<close>).
  A factory (a Pagelet class in \<open>Page.prototype.pagelets\<close>) is given by the check its
  instances carry. \<open>Pagelet.alloc().configure(page)\<close> yields one instance per factory;
  the instance of the factory at position \<open>i\<close> is identified by \<open>i\<close>.
\<close>

record 'r pagelet =
  ident :: nat
  authorize :: "'r authorize option"

type_synonym 'r factory = "'r authorize option"

definition allocate :: "nat \<times> 'r factory \<Rightarrow> 'r pagelet" where
  "allocate Pagelet = \<lparr>ident = fst Pagelet, authorize = snd Pagelet\<rparr>"

text \<open>
  The property \<open>pagelets\<close> is \<open>{}\<close> on the prototype; \<open>discover\<close> expects the array that
  \<open>Pipe#transform\<close> makes of it.
\<close>

datatype 'r pagelets_field = Plain_object | Array "'r factory list"

text \<open>
  A listener is a function registered on the page for an event. The page calls it only
  while it removes listeners (see below); what matters of it then is whether it returns
  or throws. The listener table \<open>_events\<close> holds, for every event that has listeners,
  its listeners in the order of their registration; the events are in the order in which
  \<open>for (key in this._events)\<close> visits them.
\<close>

datatype listener = Listener (listener_id: nat) (raises: "string option")

type_synonym events = "(string \<times> listener list) list"

text \<open>
  \<open>enabled\<close> and \<open>disabled\<close> are objects with integer keys (\<open>{}\<close> at construction, arrays
  after \<open>discover\<close>): a list whose holes are \<open>None\<close>. \<open>connections\<close> maps names to
  connections; \<open>listeners\<close> is the listener table of the EventEmitter the page inherits
  from.
\<close>

record 'r page =
  pipe :: nat
  connections :: "(string \<times> nat) list"
  conditional :: "nat list"
  disabled :: "'r pagelet option list"
  enabled :: "'r pagelet option list"
  pagelets :: "'r pagelets_field"
  listeners :: events

type_synonym 'r heap = "nat \<Rightarrow> 'r page"

definition Page :: "nat \<Rightarrow> 'r page" where
  "Page p = \<lparr>pipe = p, connections = [], conditional = [], disabled = [], enabled = [],
             pagelets = Plain_object, listeners = []\<rparr>"

text \<open>The heap in which every page is as its constructor left it.\<close>

definition new_pages :: "'r heap" where
  "new_pages = (\<lambda>a. Page a)"

fun idents :: "'r pagelet option list \<Rightarrow> nat list" where
  "idents [] = []"
| "idents (None # xs) = idents xs"
| "idents (Some p # xs) = ident p # idents xs"

section \<open>The flow-control library\<close>

text \<open>
  Modelled from the spec: the flow-control utility \<open>async\<close> (\<open>Page.prototype.async\<close>,
  from \<open>require('async')\<close>) is an external collaborator whose code is not among the
  sources. The spec gives its part in \<open>discover\<close>: the checks of all pagelets are started,
  the operation completes once every one of them has called back, and the kept pagelets
  keep their order. The rest is the library's \<open>filter(arr, iterator, callback)\<close> as its
  0.2 releases have it: it calls \<open>iterator(item, done)\<close> for every item in turn; a call
  \<open>done(v)\<close> keeps the item when \<open>v\<close> is true and then counts the item as completed;
  when the count reaches the length of \<open>arr\<close>, \<open>callback\<close> is called with the kept items
  sorted by their index; on an empty \<open>arr\<close>, \<open>callback([])\<close> is called at once. The
  counting step is wrapped once per item: a second call of the same \<open>done\<close> throws
  \<open>Error("Callback was already called.")\<close>. Nothing is caught: an exception of the
  iterator or of \<open>done\<close> leaves \<open>filter\<close>.

  The iterator is given by the uses it makes of \<open>done\<close>, in order. The closure holds what
  the callbacks of one \<open>filter\<close> call share: the kept entries \<open>{index, value}\<close>, the count
  of items that called back, the items whose \<open>done\<close> is used up, the calls of \<open>done\<close> that
  wait for a later turn, and the items the iterator has been called on so far (the
  position of the loop over \<open>arr\<close>).
\<close>

record 'a closure =
  results :: "(nat \<times> 'a) list"
  completed :: nat
  called :: "nat list"
  pending :: "((nat \<times> 'a) \<times> bool) list"
  started :: "nat list"

definition no_calls :: "'a closure" where
  "no_calls = \<lparr>results = [], completed = 0, called = [], pending = [], started = []\<rparr>"

definition item_done ::
  "nat \<Rightarrow> ('a list \<Rightarrow> 's \<Rightarrow> 's) \<Rightarrow> nat \<times> 'a \<Rightarrow> bool \<Rightarrow> 'a closure \<times> 's
     \<Rightarrow> error option \<times> 'a closure \<times> 's" where
  "item_done n callback x v cs =
     (let c = fst cs; s = snd cs;
          c1 = (if v then c\<lparr>results := results c @ [x]\<rparr> else c)
      in if fst x \<in> set (called c1) then (Some Callback_already_called, c1, s)
         else let c2 = c1\<lparr>completed := completed c1 + 1, called := fst x # called c1\<rparr>
              in if n \<le> completed c2
                 then (None, c2, callback (map snd (sort_key fst (results c2))) s)
                 else (None, c2, s))"

fun run_uses ::
  "nat \<Rightarrow> ('a list \<Rightarrow> 's \<Rightarrow> 's) \<Rightarrow> nat \<times> 'a \<Rightarrow> use list \<Rightarrow> 'a closure \<times> 's
     \<Rightarrow> error option \<times> 'a closure \<times> 's" where
  "run_uses n callback x [] cs = (None, cs)"
| "run_uses n callback x (Call v # us) cs =
     (case item_done n callback x v cs of
        (Some e, cs') \<Rightarrow> (Some e, cs')
      | (None, cs') \<Rightarrow> run_uses n callback x us cs')"
| "run_uses n callback x (Call_later v # us) cs =
     run_uses n callback x us ((fst cs)\<lparr>pending := pending (fst cs) @ [(x, v)]\<rparr>, snd cs)"
| "run_uses n callback x (Raise e # us) cs = (Some e, cs)"

fun each ::
  "nat \<Rightarrow> ('a \<Rightarrow> use list) \<Rightarrow> ('a list \<Rightarrow> 's \<Rightarrow> 's) \<Rightarrow> (nat \<times> 'a) list \<Rightarrow> 'a closure \<times> 's
     \<Rightarrow> error option \<times> 'a closure \<times> 's" where
  "each n iterator callback [] cs = (None, cs)"
| "each n iterator callback (x # xs) cs =
     (case run_uses n callback x (iterator (snd x))
             ((fst cs)\<lparr>started := started (fst cs) @ [fst x]\<rparr>, snd cs) of
        (Some e, cs') \<Rightarrow> (Some e, cs')
      | (None, cs') \<Rightarrow> each n iterator callback xs cs')"

definition async_filter ::
  "'a list \<Rightarrow> ('a \<Rightarrow> use list) \<Rightarrow> ('a list \<Rightarrow> 's \<Rightarrow> 's) \<Rightarrow> 's \<Rightarrow> error option \<times> 'a closure \<times> 's" where
  "async_filter arr iterator callback s =
     (if arr = [] then (None, no_calls, callback [] s)
      else each (length arr) iterator callback (enumerate 0 arr) (no_calls, s))"

text \<open>
  The later turns of the event loop: every waiting call of \<open>done\<close> runs in a turn of its
  own, so an exception it throws ends that turn only.
\<close>

definition settle ::
  "nat \<Rightarrow> ('a list \<Rightarrow> 's \<Rightarrow> 's) \<Rightarrow> 'a closure \<times> 's \<Rightarrow> 'a closure \<times> 's" where
  "settle n callback cs =
     fold (\<lambda>t cs'. snd (item_done n callback (fst t) (snd t) cs')) (pending (fst cs)) cs"

section \<open>discover\<close>

text \<open>
  \<open>Array.prototype.indexOf\<close>: the first position of the object, or \<open>-1\<close>.
\<close>

fun indexOf :: "'r pagelet list \<Rightarrow> 'r pagelet \<Rightarrow> int" where
  "indexOf [] p = - 1"
| "indexOf (q # qs) p =
     (if ident q = ident p then 0
      else (let k = indexOf qs p in if k < 0 then - 1 else k + 1))"

text \<open>
  The iterator \<open>rejection\<close>: the check, when the pagelet has one, gets \<open>done\<close>; then
  \<open>done(true)\<close> is called in every case.
\<close>

definition rejection :: "'r option \<Rightarrow> 'r pagelet \<Rightarrow> use list" where
  "rejection req pagelet =
     (case authorize pagelet of Some f \<Rightarrow> f req | None \<Rightarrow> []) @ [Call True]"

text \<open>
  The callback \<open>acceptance\<close>: \<open>page.enabled = allowed\<close>, and \<open>page.disabled\<close> is the
  pagelets for which \<open>!!allowed.indexOf(pagelet)\<close> holds, that is, whose index in
  \<open>allowed\<close> is not \<open>0\<close>.
\<close>

definition acceptance :: "nat \<Rightarrow> 'r pagelet list \<Rightarrow> 'r pagelet list \<Rightarrow> 'r heap \<Rightarrow> 'r heap" where
  "acceptance page pagelets' allowed h =
     h(page := (h page)\<lparr>enabled := map Some allowed,
                        disabled := map Some (filter (\<lambda>pagelet. indexOf allowed pagelet \<noteq> 0) pagelets')\<rparr>)"

text \<open>
  \<open>discover(req)\<close>: \<open>this.pagelets.map(allocate)\<close>, which throws when \<open>pagelets\<close> has
  no \<open>map\<close>, then the filter with \<open>rejection\<close> and \<open>acceptance\<close>. \<open>discover_run\<close> is
  this body, with the closure it leaves to later turns; \<open>discover\<close> is what its caller
  sees: the heap, and whether the call returned (\<open>undefined\<close>) or threw.
\<close>

definition discover_run ::
  "nat \<Rightarrow> 'r option \<Rightarrow> 'r heap \<Rightarrow> error option \<times> 'r pagelet closure \<times> 'r heap" where
  "discover_run this req h =
     (case pagelets (h this) of
        Plain_object \<Rightarrow> (Some TypeError, no_calls, h)
      | Array fs \<Rightarrow>
          (let pagelets' = map allocate (enumerate 0 fs)
           in async_filter pagelets' (rejection req) (acceptance this pagelets') h))"

definition discover :: "nat \<Rightarrow> 'r option \<Rightarrow> 'r heap \<Rightarrow> unit completion \<times> 'r heap" where
  "discover this req h =
     (case discover_run this req h of
        (Some e, c, h') \<Rightarrow> (Throws e, h')
      | (None, c, h') \<Rightarrow> (Returns (), h'))"

text \<open>
  The heap once the calls of \<open>done\<close> that \<open>discover\<close> left waiting have all run.
\<close>

definition discover_settled :: "nat \<Rightarrow> 'r option \<Rightarrow> 'r heap \<Rightarrow> 'r heap" where
  "discover_settled this req h =
     (case pagelets (h this) of
        Plain_object \<Rightarrow> h
      | Array fs \<Rightarrow>
          (let pagelets' = map allocate (enumerate 0 fs)
           in snd (settle (length pagelets') (acceptance this pagelets')
                     (snd (discover_run this req h)))))"

section \<open>The listeners of the page\<close>

text \<open>
  Modelled from the spec: the page inherits \<open>removeAllListeners\<close> from the EventEmitter
  of the platform (\<open>require('events')\<close>), whose code is not among the sources; the spec
  only says that the reset strips every subscription. The rest is the platform's
  \<open>removeAllListeners()\<close> since the \<open>'removeListener'\<close> event exists: with no listener for
  \<open>'removeListener'\<close> the table is replaced by an empty one; otherwise the listeners of
  every other event are removed one by one, the last registered first, then those of
  \<open>'removeListener'\<close>, and each removal is followed by \<open>emit('removeListener', ...)\<close>,
  which calls the listeners of \<open>'removeListener'\<close> that are left, in the order of their
  registration; at the end the table is replaced by an empty one. Nothing is caught: a
  listener that throws ends \<open>removeAllListeners\<close> with the table as it is then.
\<close>

fun emit :: "listener list \<Rightarrow> error option" where
  "emit [] = None"
| "emit (l # ls) = (case raises l of Some msg \<Rightarrow> Some (Listener_error msg) | None \<Rightarrow> emit ls)"

definition listeners_of :: "string \<Rightarrow> events \<Rightarrow> listener list" where
  "listeners_of type evs = (case map_of evs type of Some ls \<Rightarrow> ls | None \<Rightarrow> [])"

definition delete_event :: "string \<Rightarrow> events \<Rightarrow> events" where
  "delete_event type evs = filter (\<lambda>kv. fst kv \<noteq> type) evs"

definition set_listeners :: "string \<Rightarrow> listener list \<Rightarrow> events \<Rightarrow> events" where
  "set_listeners type ls evs =
     (if ls = [] then delete_event type evs
      else map (\<lambda>kv. if fst kv = type then (type, ls) else kv) evs)"

text \<open>
  \<open>removeListener(type, listener)\<close> for the last listener of \<open>type\<close>: it is taken out of
  the table (with the event, when it was the only one), then \<open>'removeListener'\<close> is
  emitted if that event has listeners.
\<close>

definition removeListener :: "string \<Rightarrow> events \<Rightarrow> error option \<times> events" where
  "removeListener type evs =
     (let evs' = set_listeners type (butlast (listeners_of type evs)) evs
      in (emit (listeners_of ''removeListener'' evs'), evs'))"

text \<open>
  \<open>removeAllListeners(type)\<close>, reached while \<open>'removeListener'\<close> has listeners: the loop
  \<open>while (listeners.length) this.removeListener(type, listeners[listeners.length - 1])\<close>,
  which runs once for every listener of \<open>type\<close>, then \<open>delete this._events[type]\<close>.
\<close>

fun remove_listeners :: "nat \<Rightarrow> string \<Rightarrow> events \<Rightarrow> error option \<times> events" where
  "remove_listeners 0 type evs = (None, delete_event type evs)"
| "remove_listeners (Suc m) type evs =
     (case removeListener type evs of
        (Some e, evs') \<Rightarrow> (Some e, evs')
      | (None, evs') \<Rightarrow> remove_listeners m type evs')"

definition removeAllListeners_of :: "string \<Rightarrow> events \<Rightarrow> error option \<times> events" where
  "removeAllListeners_of type evs = remove_listeners (length (listeners_of type evs)) type evs"

text \<open>
  The loop \<open>for (key in this._events)\<close> of \<open>removeAllListeners()\<close>, which passes over
  \<open>'removeListener'\<close>.
\<close>

fun remove_events :: "string list \<Rightarrow> events \<Rightarrow> error option \<times> events" where
  "remove_events [] evs = (None, evs)"
| "remove_events (key # keys) evs =
     (if key = ''removeListener'' then remove_events keys evs
      else case removeAllListeners_of key evs of
             (Some e, evs') \<Rightarrow> (Some e, evs')
           | (None, evs') \<Rightarrow> remove_events keys evs')"

definition removeAllListeners :: "events \<Rightarrow> error option \<times> events" where
  "removeAllListeners evs =
     (if listeners_of ''removeListener'' evs = [] then (None, [])
      else case remove_events (map fst evs) evs of
             (Some e, evs') \<Rightarrow> (Some e, evs')
           | (None, evs') \<Rightarrow>
               (case removeAllListeners_of ''removeListener'' evs' of
                  (Some e, evs'') \<Rightarrow> (Some e, evs'')
                | (None, evs'') \<Rightarrow> (None, [])))"

section \<open>configure\<close>

text \<open>
  \<open>for (key in obj)\<close> visits the keys the object has; \<open>delete obj[key]\<close> leaves a hole
  and keeps the length of an array.
\<close>

definition own_keys :: "'a option list \<Rightarrow> nat list" where
  "own_keys xs = filter (\<lambda>i. xs ! i \<noteq> None) [0..<length xs]"

definition delete_key :: "nat \<Rightarrow> 'a option list \<Rightarrow> 'a option list" where
  "delete_key k xs = (if k < length xs then xs[k := None] else xs)"

definition delete_connection :: "string \<Rightarrow> (string \<times> nat) list \<Rightarrow> (string \<times> nat) list" where
  "delete_connection k cs = filter (\<lambda>kv. fst kv \<noteq> k) cs"

text \<open>
  The first part of \<open>configure\<close>, up to \<open>this.removeAllListeners()\<close>, with the exception
  that call may end with. The third loop runs over the keys of \<open>disabled\<close> and deletes
  them from \<open>enabled\<close>, as the source does.
\<close>

definition reset :: "'r page \<Rightarrow> error option \<times> 'r page" where
  "reset p =
     (let p1 = p\<lparr>connections := fold delete_connection (map fst (connections p)) (connections p)\<rparr>;
          p2 = p1\<lparr>enabled := fold delete_key (own_keys (enabled p1)) (enabled p1)\<rparr>;
          p3 = p2\<lparr>enabled := fold delete_key (own_keys (disabled p2)) (enabled p2)\<rparr>;
          p4 = p3\<lparr>conditional := []\<rparr>;
          removed = removeAllListeners (listeners p4)
      in (fst removed, p4\<lparr>listeners := snd removed\<rparr>))"

text \<open>
  \<open>configure(req, res)\<close>: the reset, then \<open>this.discover()\<close>, called without an argument,
  then \<open>return this\<close>. An exception of the reset or of \<open>discover\<close> leaves \<open>configure\<close>.
\<close>

definition configure :: "nat \<Rightarrow> 'r option \<Rightarrow> 'q \<Rightarrow> 'r heap \<Rightarrow> nat completion \<times> 'r heap" where
  "configure this req res h =
     (case reset (h this) of
        (Some e, p) \<Rightarrow> (Throws e, h(this := p))
      | (None, p) \<Rightarrow>
          (case discover this None (h(this := p)) of
             (Throws e, h') \<Rightarrow> (Throws e, h')
           | (Returns u, h') \<Rightarrow> (Returns this, h')))"

section \<open>Quiet checks and recorded runs\<close>

text \<open>
  A check is quiet on a request when it neither throws nor calls \<open>done\<close> before it
  returns; a pagelet without a check is quiet.
\<close>

fun is_later :: "use \<Rightarrow> bool" where
  "is_later (Call_later v) = True"
| "is_later (Call v) = False"
| "is_later (Raise e) = False"

fun quiet :: "'r option \<Rightarrow> 'r factory \<Rightarrow> bool" where
  "quiet req None = True"
| "quiet req (Some f) = list_all is_later (f req)"

text \<open>
  What a check does before it throws: the values of its calls of \<open>done\<close> before its first
  \<open>Raise\<close>, and the exception; \<open>None\<close> for a check that does not throw.
\<close>

fun before_raise :: "use list \<Rightarrow> (bool list \<times> error) option" where
  "before_raise [] = None"
| "before_raise (Call v # us) =
     (case before_raise us of None \<Rightarrow> None | Some r \<Rightarrow> Some (v # fst r, snd r))"
| "before_raise (Call_later v # us) = before_raise us"
| "before_raise (Raise e # us) = Some ([], e)"

text \<open>
  A run of the filter can be replayed on any heap from the list its callback was last
  called with, if it was called.
\<close>

fun fire :: "('a \<Rightarrow> 's \<Rightarrow> 's) \<Rightarrow> 'a option \<Rightarrow> 's \<Rightarrow> 's" where
  "fire callback None s = s"
| "fire callback (Some a) s = callback a s"

definition record_last :: "'a \<Rightarrow> 'a option \<Rightarrow> 'a option" where
  "record_last a l = Some a"

definition replay ::
  "('a \<Rightarrow> 's \<Rightarrow> 's) \<Rightarrow> 's \<Rightarrow> error option \<times> 'c \<times> 'a option \<Rightarrow> error option \<times> 'c \<times> 's" where
  "replay callback s r = (fst r, fst (snd r), fire callback (snd (snd r)) s)"

definition outcome :: "error option \<Rightarrow> unit completion" where
  "outcome e = (case e of None \<Rightarrow> Returns () | Some x \<Rightarrow> Throws x)"

section \<open>Example pages\<close>

text \<open>
  The heap of the pages of one page type, whose \<open>pagelets\<close> is the array \<open>fs\<close>, as the
  constructor left them; and the same pages with listeners registered on them.
\<close>

definition serving :: "'r factory list \<Rightarrow> 'r heap" where
  "serving fs = (\<lambda>a. (Page a)\<lparr>pagelets := Array fs\<rparr>)"

definition listening :: "events \<Rightarrow> 'r heap \<Rightarrow> 'r heap" where
  "listening evs h = (\<lambda>a. (h a)\<lparr>listeners := evs\<rparr>)"

text \<open>
  A check that reads a field of the request: it throws on \<open>undefined\<close>, and answers in a
  later turn with the field otherwise.
\<close>

definition needs_request :: "bool authorize" where
  "needs_request req =
     (case req of None \<Rightarrow> [Raise (Authorize_error ''req is undefined'')]
      | Some admin \<Rightarrow> [Call_later admin])"

text \<open>
  Pages with open connections; a listener table whose \<open>'removeListener'\<close> listener
  throws; and one whose listeners all return.
\<close>

definition connected :: "(string \<times> nat) list \<Rightarrow> 'r heap \<Rightarrow> 'r heap" where
  "connected cs h = (\<lambda>a. (h a)\<lparr>connections := cs\<rparr>)"

definition guarded :: events where
  "guarded = [(''removeListener'', [Listener 1 (Some ''boom'')]), (''end'', [Listener 2 None])]"

definition watched :: events where
  "watched = [(''end'', [Listener 1 None, Listener 2 None]), (''removeListener'', [Listener 3 None])]"

section \<open>The run of the library on the pagelets\<close>

lemma sort_key_enumerate: "map snd (sort_key fst (enumerate m zs)) = zs"
proof -
  have "sorted (map fst (enumerate m zs))" by simp
  then have "sort_key fst (enumerate m zs) = enumerate m zs"
    by (rule sort_key_id_if_sorted)
  then show ?thesis by simp
qed

lemma enumerate_snoc: "enumerate m zs @ [(m + length zs, z)] = enumerate m (zs @ [z])"
  by (simp add: enumerate_append_eq)

lemma run_uses_later:
  "list_all is_later us \<Longrightarrow>
   \<exists>c'. run_uses n cb x (us @ vs) (c, s) = run_uses n cb x vs (c', s)
      \<and> results c' = results c \<and> completed c' = completed c \<and> called c' = called c
      \<and> started c' = started c"
proof (induction us arbitrary: c)
  case Nil
  then show ?case by auto
next
  case (Cons u us)
  then obtain v where u: "u = Call_later v" by (cases u) auto
  have "list_all is_later us" using Cons.prems by simp
  from Cons.IH [OF this, of "c\<lparr>pending := pending c @ [(x, v)]\<rparr>"] obtain c' where
    "run_uses n cb x (us @ vs) (c\<lparr>pending := pending c @ [(x, v)]\<rparr>, s) = run_uses n cb x vs (c', s)"
    "results c' = results (c\<lparr>pending := pending c @ [(x, v)]\<rparr>)"
    "completed c' = completed (c\<lparr>pending := pending c @ [(x, v)]\<rparr>)"
    "called c' = called (c\<lparr>pending := pending c @ [(x, v)]\<rparr>)"
    "started c' = started (c\<lparr>pending := pending c @ [(x, v)]\<rparr>)"
    by blast
  then show ?case using u by auto
qed

lemma item_done_fresh:
  assumes "fst x \<notin> set (called c)"
  shows "\<exists>c'. item_done n cb x v (c, s) =
            (None, c', if n \<le> completed c + 1
                       then cb (map snd (sort_key fst (results c @ (if v then [x] else [])))) s else s)
          \<and> results c' = results c @ (if v then [x] else []) \<and> completed c' = completed c + 1
          \<and> set (called c') = insert (fst x) (set (called c)) \<and> started c' = started c"
  using assms by (auto simp: item_done_def Let_def)

lemma run_quiet:
  assumes "fst x \<notin> set (called c)" and "list_all is_later us"
  shows "\<exists>c'. run_uses n cb x (us @ [Call True]) (c, s) =
            (None, c', if n \<le> completed c + 1
                       then cb (map snd (sort_key fst (results c @ [x]))) s else s)
          \<and> results c' = results c @ [x] \<and> completed c' = completed c + 1
          \<and> set (called c') = insert (fst x) (set (called c)) \<and> started c' = started c"
proof -
  from run_uses_later [OF assms(2), of n cb x "[Call True]" c s] obtain c1 where
    c1: "run_uses n cb x (us @ [Call True]) (c, s) = run_uses n cb x [Call True] (c1, s)"
      "results c1 = results c" "completed c1 = completed c" "called c1 = called c"
      "started c1 = started c"
    by blast
  have "fst x \<notin> set (called c1)" using assms(1) c1(4) by simp
  from item_done_fresh [OF this, of n cb True s] obtain c' where
    "item_done n cb x True (c1, s) =
            (None, c', if n \<le> completed c1 + 1
                       then cb (map snd (sort_key fst (results c1 @ [x]))) s else s)"
    "results c' = results c1 @ [x]" "completed c' = completed c1 + 1"
    "set (called c') = insert (fst x) (set (called c1))" "started c' = started c1"
    by auto
  then show ?thesis using c1 by auto
qed

lemma rejection_quiet:
  "quiet req (authorize p) \<Longrightarrow> \<exists>us. rejection req p = us @ [Call True] \<and> list_all is_later us"
  by (cases "authorize p") (auto simp: rejection_def)

lemma each_quiet:
  assumes "list_all (\<lambda>p. quiet req (authorize p)) ps"
    and "\<forall>i \<in> set (called c). i < k"
    and "completed c + length ps \<le> n"
  shows "\<exists>c'. each n (rejection req) cb (enumerate k ps) (c, s) =
            (None, c', if ps \<noteq> [] \<and> completed c + length ps = n
                       then cb (map snd (sort_key fst (results c @ enumerate k ps))) s else s)
          \<and> results c' = results c @ enumerate k ps
          \<and> completed c' = completed c + length ps
          \<and> (\<forall>i \<in> set (called c'). i < k + length ps)
          \<and> started c' = started c @ [k..<k + length ps]"
  using assms
proof (induction ps arbitrary: k c)
  case Nil
  then show ?case by auto
next
  case (Cons p ps)
  let ?c0 = "c\<lparr>started := started c @ [k]\<rparr>"
  from Cons.prems(1) obtain us where us: "rejection req p = us @ [Call True]" "list_all is_later us"
    using rejection_quiet [of req p] by auto
  have fresh: "fst (k, p) \<notin> set (called ?c0)" using Cons.prems(2) by auto
  from run_quiet [OF fresh us(2), of n cb s] obtain c1 where
    run: "run_uses n cb (k, p) (rejection req p) (?c0, s) =
            (None, c1, if n \<le> completed c + 1
                       then cb (map snd (sort_key fst (results c @ [(k, p)]))) s else s)"
    and c1: "results c1 = results c @ [(k, p)]" "completed c1 = completed c + 1"
      "set (called c1) = insert k (set (called c))" "started c1 = started c @ [k]"
    using us(1) by auto
  show ?case
  proof (cases "ps = []")
    case True
    then show ?thesis using run c1 Cons.prems(2,3) by (auto simp: less_Suc_eq)
  next
    case False
    then have nofire: "\<not> n \<le> completed c + 1"
      using Cons.prems(3) by (cases ps) auto
    have "list_all (\<lambda>p. quiet req (authorize p)) ps" using Cons.prems(1) by simp
    moreover have "\<forall>i \<in> set (called c1). i < Suc k" using c1(3) Cons.prems(2) by (auto simp: less_Suc_eq)
    moreover have "completed c1 + length ps \<le> n" using c1(2) Cons.prems(3) by simp
    ultimately obtain c' where
      rest: "each n (rejection req) cb (enumerate (Suc k) ps) (c1, s) =
            (None, c', if ps \<noteq> [] \<and> completed c1 + length ps = n
                       then cb (map snd (sort_key fst (results c1 @ enumerate (Suc k) ps))) s else s)"
      and c': "results c' = results c1 @ enumerate (Suc k) ps"
        "completed c' = completed c1 + length ps"
        "\<forall>i \<in> set (called c'). i < Suc k + length ps"
        "started c' = started c1 @ [Suc k..<Suc k + length ps]"
      using Cons.IH [of c1 "Suc k"] by blast
    have "[k..<k + length (p # ps)] = k # [Suc k..<Suc k + length ps]"
      by (simp add: upt_rec)
    then show ?thesis
      using run nofire rest c' c1 False by auto
  qed
qed

section \<open>Replaying a run\<close>

lemma item_done_replay:
  assumes "\<And>a b s. cb a (cb b s) = cb a s"
  shows "item_done n cb x v (c, fire cb l s) = replay cb s (item_done n record_last x v (c, l))"
  using assms by (cases l) (simp_all add: item_done_def replay_def record_last_def Let_def)

lemma run_uses_replay:
  assumes "\<And>a b s. cb a (cb b s) = cb a s"
  shows "run_uses n cb x us (c, fire cb l s) = replay cb s (run_uses n record_last x us (c, l))"
proof (induction us arbitrary: c l)
  case Nil
  then show ?case by (simp add: replay_def)
next
  case (Cons u us)
  show ?case
  proof (cases u)
    case (Call v)
    obtain e c' l' where r: "item_done n record_last x v (c, l) = (e, c', l')"
      using prod_cases3 by blast
    then have "item_done n cb x v (c, fire cb l s) = (e, c', fire cb l' s)"
      using item_done_replay [where cb = cb and n = n and x = x and v = v and c = c and l = l and s = s, OF assms]
      by (simp add: replay_def)
    then show ?thesis using r Call Cons.IH [of c' l'] by (cases e) (simp_all add: replay_def)
  next
    case (Call_later v)
    then show ?thesis using Cons.IH by simp
  next
    case (Raise e)
    then show ?thesis by (simp add: replay_def)
  qed
qed

lemma each_replay:
  assumes "\<And>a b s. cb a (cb b s) = cb a s"
  shows "each n it cb xs (c, fire cb l s) = replay cb s (each n it record_last xs (c, l))"
proof (induction xs arbitrary: c l)
  case Nil
  then show ?case by (simp add: replay_def)
next
  case (Cons x xs)
  let ?c0 = "c\<lparr>started := started c @ [fst x]\<rparr>"
  obtain e c' l' where r: "run_uses n record_last x (it (snd x)) (?c0, l) = (e, c', l')"
    using prod_cases3 by blast
  then have "run_uses n cb x (it (snd x)) (?c0, fire cb l s) = (e, c', fire cb l' s)"
    using run_uses_replay [where cb = cb and n = n and x = x and us = "it (snd x)" and c = ?c0 and l = l and s = s, OF assms]
    by (simp add: replay_def)
  then show ?case using r Cons.IH [of c' l'] by (cases e) (simp_all add: replay_def)
qed

lemma async_filter_replay:
  assumes "\<And>a b s. cb a (cb b s) = cb a s"
  shows "async_filter arr it cb s = replay cb s (async_filter arr it record_last None)"
proof (cases "arr = []")
  case True
  then show ?thesis by (simp add: async_filter_def replay_def record_last_def)
next
  case False
  then show ?thesis
    using each_replay [where cb = cb and n = "length arr" and it = it and xs = "enumerate 0 arr"
        and c = no_calls and l = None and s = s, OF assms]
    by (simp add: async_filter_def)
qed

lemma acceptance_overwrites:
  "acceptance this ps a (acceptance this ps b h) = acceptance this ps a h"
  by (simp add: acceptance_def)

lemma discover_run_replay:
  assumes "pagelets (h this) = Array fs"
  shows "discover_run this req h =
     replay (acceptance this (map allocate (enumerate 0 fs))) h
       (async_filter (map allocate (enumerate 0 fs)) (rejection req) record_last None)"
  using assms async_filter_replay [where cb = "acceptance this (map allocate (enumerate 0 fs))", OF acceptance_overwrites]
  by (simp add: discover_run_def Let_def)

lemma each_append:
  "each n it cb (xs @ ys) cs =
     (case each n it cb xs cs of
        (Some e, cs') \<Rightarrow> (Some e, cs')
      | (None, cs') \<Rightarrow> each n it cb ys cs')"
  by (induction xs arbitrary: cs) (auto split: prod.splits option.splits)

lemma run_raise0:
  "before_raise us = Some ([], e) \<Longrightarrow>
   \<exists>c'. run_uses n cb x (us @ vs) (c, s) = (Some e, c', s) \<and> started c' = started c"
proof (induction us arbitrary: c)
  case Nil
  then show ?case by simp
next
  case (Cons u us)
  show ?case
  proof (cases u)
    case (Call v)
    then show ?thesis using Cons.prems by (simp split: option.splits)
  next
    case (Call_later v)
    then have "before_raise us = Some ([], e)" using Cons.prems by simp
    from Cons.IH [OF this, of "c\<lparr>pending := pending c @ [(x, v)]\<rparr>"] show ?thesis
      using Call_later by auto
  next
    case (Raise e')
    then show ?thesis using Cons.prems by simp
  qed
qed

lemma run_raise1:
  "before_raise us = Some ([b], e) \<Longrightarrow> fst x \<notin> set (called c) \<Longrightarrow>
   \<exists>c'. run_uses n cb x (us @ vs) (c, s) =
           (Some e, c', if n \<le> completed c + 1
                        then cb (map snd (sort_key fst (results c @ (if b then [x] else [])))) s else s)
       \<and> started c' = started c"
proof (induction us arbitrary: c)
  case Nil
  then show ?case by simp
next
  case (Cons u us)
  show ?case
  proof (cases u)
    case (Call v)
    then have rest: "before_raise us = Some ([], e)" and v: "v = b"
      using Cons.prems(1) by (auto split: option.splits simp: prod_eq_iff)
    let ?s1 = "if n \<le> completed c + 1
               then cb (map snd (sort_key fst (results c @ (if b then [x] else [])))) s else s"
    from item_done_fresh [OF Cons.prems(2), of n cb b s] obtain c1 where
      c1: "item_done n cb x b (c, s) = (None, c1, ?s1)" "started c1 = started c"
      by auto
    from run_raise0 [OF rest, of n cb x vs c1 ?s1] obtain c' where
      "run_uses n cb x (us @ vs) (c1, ?s1) = (Some e, c', ?s1)" "started c' = started c1"
      by blast
    then show ?thesis using Call v c1 by auto
  next
    case (Call_later v)
    then have "before_raise us = Some ([b], e)" using Cons.prems(1) by simp
    moreover have "fst x \<notin> set (called (c\<lparr>pending := pending c @ [(x, v)]\<rparr>))"
      using Cons.prems(2) by simp
    ultimately show ?thesis
      using Cons.IH [of "c\<lparr>pending := pending c @ [(x, v)]\<rparr>"] Call_later by auto
  next
    case (Raise e')
    then show ?thesis using Cons.prems by simp
  qed
qed

lemma authorize_allocate: "map (\<lambda>p. authorize p) (map allocate (enumerate n fs)) = fs"
  by (simp add: allocate_def comp_def enumerate_eq_zip)

lemma quiet_pagelets:
  "list_all (quiet req) fs \<Longrightarrow> list_all (\<lambda>p. quiet req (authorize p)) (map allocate (enumerate n fs))"
proof -
  assume "list_all (quiet req) fs"
  then have "list_all (quiet req) (map (\<lambda>p. authorize p) (map allocate (enumerate n fs)))"
    by (simp only: authorize_allocate)
  then show ?thesis by (simp add: list.pred_map comp_def)
qed

lemma allocate_in_pagelets:
  "i < length fs \<Longrightarrow> allocate (i, fs ! i) \<in> set (map allocate (enumerate 0 fs))"
proof -
  assume "i < length fs"
  then have "(i, fs ! i) \<in> set (enumerate 0 fs)"
    by (simp add: in_set_enumerate_eq)
  then show ?thesis by simp
qed

lemma discover_outcome:
  "discover this req h = (outcome (fst (discover_run this req h)), snd (snd (discover_run this req h)))"
  by (simp add: discover_def outcome_def split: prod.splits option.splits)

lemma outcome_Returns [simp]: "outcome e = Returns () \<longleftrightarrow> e = None"
  by (cases e) (simp_all add: outcome_def)

lemma outcome_Throws [simp]: "outcome e = Throws x \<longleftrightarrow> e = Some x"
  by (cases e) (simp_all add: outcome_def)

lemma discover_run_Plain_object:
  "pagelets (h this) = Plain_object \<Longrightarrow> discover_run this req h = (Some TypeError, no_calls, h)"
  by (simp add: discover_run_def)

lemma discover_quiet:
  assumes "pagelets (h this) = Array fs"
    and "list_all (quiet req) fs"
  shows "discover this req h =
     (Returns (), acceptance this (map allocate (enumerate 0 fs)) (map allocate (enumerate 0 fs)) h)"
proof (cases "fs = []")
  case True
  then show ?thesis using assms(1)
    by (simp add: discover_def discover_run_def async_filter_def)
next
  case False
  let ?ps = "map allocate (enumerate 0 fs)"
  let ?cb = "acceptance this ?ps"
  have ne: "?ps \<noteq> []" using False by (cases fs) (simp_all add: enumerate_eq_zip upt_rec)
  have q: "list_all (\<lambda>p. quiet req (authorize p)) ?ps"
    using assms(2) by (rule quiet_pagelets)
  from each_quiet [of req ?ps no_calls 0 "length ?ps" ?cb h] q obtain c' where
    "each (length ?ps) (rejection req) ?cb (enumerate 0 ?ps) (no_calls, h) = (None, c', ?cb ?ps h)"
    using ne by (auto simp: no_calls_def sort_key_enumerate)
  then have "discover_run this req h = (None, c', ?cb ?ps h)"
    using assms(1) ne by (simp add: discover_run_def async_filter_def Let_def)
  then show ?thesis by (simp add: discover_outcome)
qed

lemma discover_raising:
  assumes "pagelets (h this) = Array fs"
    and "k < length fs"
    and "list_all (quiet req) (take k fs)"
    and "fs ! k = Some f"
    and "before_raise (f req) = Some (bs, e)"
    and "length bs \<le> 1"
  shows "\<exists>c'. discover_run this req h =
          (Some e, c',
           if bs \<noteq> [] \<and> Suc k = length fs
           then acceptance this (map allocate (enumerate 0 fs))
                  (map allocate (enumerate 0 (take k fs))
                     @ (if bs = [True] then [allocate (k, fs ! k)] else [])) h
           else h)
        \<and> started c' = [0..<Suc k]"
proof -
  let ?ps = "map allocate (enumerate 0 fs)"
  let ?pre = "map allocate (enumerate 0 (take k fs))"
  let ?p = "allocate (k, fs ! k)"
  let ?post = "map allocate (enumerate (Suc k) (drop (Suc k) fs))"
  let ?cb = "acceptance this ?ps"
  let ?n = "length fs"
  have fs: "fs = take k fs @ fs ! k # drop (Suc k) fs"
    using assms(2) by (simp add: id_take_nth_drop)
  have lk: "length (take k fs) = k" using assms(2) by simp
  have "enumerate 0 fs = enumerate 0 (take k fs) @ (k, fs ! k) # enumerate (Suc k) (drop (Suc k) fs)"
    using arg_cong [OF fs, of "enumerate 0"] lk by (simp add: enumerate_append_eq)
  then have ps: "?ps = ?pre @ ?p # ?post" by simp
  have lpre: "length ?pre = k" using lk by simp
  have items: "enumerate 0 ?ps = enumerate 0 ?pre @ (k, ?p) # enumerate (Suc k) ?post"
    using arg_cong [OF ps, of "enumerate 0"] lpre by (simp add: enumerate_append_eq)
  have ne: "?ps \<noteq> []" using ps by simp
  have run: "discover_run this req h = each ?n (rejection req) ?cb (enumerate 0 ?ps) (no_calls, h)"
    using assms(1) ne by (simp add: discover_run_def async_filter_def Let_def)
  have q: "list_all (\<lambda>p. quiet req (authorize p)) ?pre"
    using assms(3) by (rule quiet_pagelets)
  from each_quiet [of req ?pre no_calls 0 ?n ?cb h] q obtain c1 where
    first: "each ?n (rejection req) ?cb (enumerate 0 ?pre) (no_calls, h) = (None, c1, h)"
    and c1: "results c1 = enumerate 0 ?pre" "completed c1 = k"
      "\<forall>i \<in> set (called c1). i < k" "started c1 = [0..<k]"
    using assms(2) lpre by (auto simp: no_calls_def)
  let ?c2 = "c1\<lparr>started := started c1 @ [k]\<rparr>"
  have fresh: "fst (k, ?p) \<notin> set (called ?c2)" using c1(3) by auto
  have rej: "rejection req ?p = f req @ [Call True]"
    using assms(4) by (simp add: rejection_def allocate_def)
  have "\<exists>c'. run_uses ?n ?cb (k, ?p) (f req @ [Call True]) (?c2, h) =
          (Some e, c',
           if bs \<noteq> [] \<and> Suc k = ?n
           then ?cb (?pre @ (if bs = [True] then [?p] else [])) h else h)
        \<and> started c' = [0..<Suc k]"
  proof (cases bs)
    case Nil
    then show ?thesis
      using run_raise0 [of "f req" e ?n ?cb "(k, ?p)" "[Call True]" ?c2 h] assms(5) c1(4)
      by auto
  next
    case (Cons b bs')
    then have bs: "bs = [b]" using assms(6) by simp
    have fire: "?n \<le> completed ?c2 + 1 \<longleftrightarrow> Suc k = ?n"
      using c1(2) assms(2) by auto
    have sorted: "map snd (sort_key fst (results ?c2 @ (if b then [(k, ?p)] else [])))
          = ?pre @ (if b then [?p] else [])"
      using c1(1) lpre enumerate_snoc [of 0 ?pre ?p] by (auto simp: sort_key_enumerate)
    from run_raise1 [of "f req" b e "(k, ?p)" ?c2 ?n ?cb "[Call True]" h] obtain c' where
      "run_uses ?n ?cb (k, ?p) (f req @ [Call True]) (?c2, h) =
           (Some e, c', if ?n \<le> completed ?c2 + 1
                        then ?cb (map snd (sort_key fst (results ?c2 @ (if b then [(k, ?p)] else [])))) h else h)"
      "started c' = started ?c2"
      using assms(5) bs fresh by blast
    then show ?thesis
      using fire sorted bs c1(4) by (cases b) auto
  qed
  then obtain c' where
    second: "run_uses ?n ?cb (k, ?p) (rejection req ?p) (?c2, h) =
          (Some e, c',
           if bs \<noteq> [] \<and> Suc k = ?n
           then ?cb (?pre @ (if bs = [True] then [?p] else [])) h else h)"
    and c': "started c' = [0..<Suc k]"
    using rej by auto
  have "each ?n (rejection req) ?cb (enumerate 0 ?ps) (no_calls, h) =
          (Some e, c',
           if bs \<noteq> [] \<and> Suc k = ?n
           then ?cb (?pre @ (if bs = [True] then [?p] else [])) h else h)"
    using first second by (simp only: items each_append) simp
  then show ?thesis using run c' by auto
qed

lemma discover_frame:
  "connections (snd (discover this req h) this) = connections (h this)
   \<and> listeners (snd (discover this req h) this) = listeners (h this)
   \<and> pagelets (snd (discover this req h) this) = pagelets (h this)"
proof (cases "pagelets (h this)")
  case Plain_object
  then show ?thesis by (simp add: discover_outcome discover_run_Plain_object)
next
  case (Array fs)
  obtain e c l where "async_filter (map allocate (enumerate 0 fs)) (rejection req) record_last None = (e, c, l)"
    using prod_cases3 by blast
  then show ?thesis
    using discover_run_replay [of h this fs req] Array
    by (cases l) (simp_all add: discover_outcome replay_def acceptance_def)
qed

section \<open>The reset\<close>

lemma fold_delete_connection:
  "fst ` set ys \<subseteq> set ks \<Longrightarrow> fold delete_connection ks ys = []"
proof (induction ks arbitrary: ys)
  case Nil
  then show ?case by simp
next
  case (Cons k ks)
  have "fst ` set (delete_connection k ys) \<subseteq> set ks"
    using Cons.prems by (auto simp: delete_connection_def)
  then show ?case using Cons.IH by simp
qed

lemma length_fold_delete_key [simp]: "length (fold delete_key ks e) = length e"
  by (induction ks arbitrary: e) (simp_all add: delete_key_def)

lemma nth_fold_delete_key:
  "i < length e \<Longrightarrow> fold delete_key ks e ! i = (if i \<in> set ks then None else e ! i)"
proof (induction ks arbitrary: e)
  case Nil
  then show ?case by simp
next
  case (Cons k ks)
  have "i < length (delete_key k e)" using Cons.prems by (simp add: delete_key_def)
  then have "fold delete_key ks (delete_key k e) ! i
             = (if i \<in> set ks then None else delete_key k e ! i)"
    by (rule Cons.IH)
  moreover have "delete_key k e ! i = (if i = k then None else e ! i)"
    using Cons.prems by (simp add: delete_key_def nth_list_update)
  ultimately show ?case by auto
qed

lemma clear_own_keys: "fold delete_key (own_keys e) e = replicate (length e) None"
proof (rule nth_equalityI)
  show "length (fold delete_key (own_keys e) e) = length (replicate (length e) None)"
    by simp
next
  fix i assume "i < length (fold delete_key (own_keys e) e)"
  then have i: "i < length e" by simp
  then have "fold delete_key (own_keys e) e ! i = None"
    by (auto simp: nth_fold_delete_key own_keys_def)
  then show "fold delete_key (own_keys e) e ! i = replicate (length e) None ! i"
    using i by simp
qed

lemma clear_holes: "fold delete_key ks (replicate n None) = replicate n None"
proof (rule nth_equalityI)
  show "length (fold delete_key ks (replicate n None)) = length (replicate n None)"
    by simp
next
  fix i assume "i < length (fold delete_key ks (replicate n None))"
  then have i: "i < n" by simp
  then show "fold delete_key ks (replicate n None) ! i = replicate n None ! i"
    by (simp add: nth_fold_delete_key)
qed

lemma reset_eq:
  "reset p = (fst (removeAllListeners (listeners p)),
              p\<lparr>connections := [], enabled := replicate (length (enabled p)) None,
                conditional := [], listeners := snd (removeAllListeners (listeners p))\<rparr>)"
  by (simp add: reset_def Let_def fold_delete_connection clear_own_keys clear_holes)

lemma removeAllListeners_Nil [simp]: "removeAllListeners [] = (None, [])"
  by (simp add: removeAllListeners_def listeners_of_def)

lemma removeAllListeners_done:
  "fst (removeAllListeners evs) = None \<Longrightarrow> snd (removeAllListeners evs) = []"
  by (auto simp: removeAllListeners_def split: if_splits prod.splits option.splits)

lemma configure_reset_throws:
  "fst (removeAllListeners (listeners (h this))) = Some e \<Longrightarrow>
   configure this req res h = (Throws e, h(this := snd (reset (h this))))"
  by (simp add: configure_def reset_eq)

lemma configure_discover:
  "fst (removeAllListeners (listeners (h this))) = None \<Longrightarrow>
   configure this req res h =
    (case fst (discover this None (h(this := snd (reset (h this))))) of
       Returns u \<Rightarrow> Returns this | Throws e \<Rightarrow> Throws e,
     snd (discover this None (h(this := snd (reset (h this))))))"
  by (simp add: configure_def reset_eq split: prod.splits completion.splits)

lemmas run_simps = serving_def Page_def discover_def discover_run_def async_filter_def no_calls_def
  item_done_def rejection_def acceptance_def allocate_def enumerate_eq_zip Let_def

lemmas listener_simps = listening_def connected_def guarded_def watched_def removeAllListeners_def
  removeAllListeners_of_def removeListener_def listeners_of_def set_listeners_def delete_event_def

section \<open>Which pagelets discover enables\<close>

text \<open>
  C1. A pagelet would be enabled exactly when its authorization check yields true or it
  has none, and one whose check resolves to false would be disabled, never enabled. The
  code does not do this: \<open>rejection\<close> calls \<open>done(true)\<close> after it has handed \<open>done\<close> to
  the check, whatever the check answers. On a page with the single pagelet whose check
  answers \<open>false\<close> in a later turn, \<open>discover\<close> returns with that pagelet in
  \<open>enabled\<close> and nothing in \<open>disabled\<close>, and the late answer changes neither.
\<close>

theorem refused_pagelet_is_enabled:
  "fst (discover 0 (Some ()) (serving [Some (\<lambda>req. [Call_later False])])) = Returns ()
   \<and> idents (enabled (snd (discover 0 (Some ()) (serving [Some (\<lambda>req. [Call_later False])])) 0)) = [0]
   \<and> idents (disabled (snd (discover 0 (Some ()) (serving [Some (\<lambda>req. [Call_later False])])) 0)) = []
   \<and> idents (enabled (discover_settled 0 (Some ()) (serving [Some (\<lambda>req. [Call_later False])]) 0)) = [0]
   \<and> idents (disabled (discover_settled 0 (Some ()) (serving [Some (\<lambda>req. [Call_later False])]) 0)) = []"
  by (simp add: run_simps discover_settled_def settle_def)

text \<open>
  C2. After \<open>discover\<close>, \<open>enabled\<close> and \<open>disabled\<close> would have no pagelet in common and
  hold every allocated pagelet between them. The code fills \<open>disabled\<close> with the pagelets
  whose index in \<open>allowed\<close> is not \<open>0\<close>: with two pagelets without a check, both are
  enabled and the second is disabled as well.
\<close>

theorem pagelet_enabled_and_disabled:
  "fst (discover 0 (Some ()) (serving [None, None])) = Returns ()
   \<and> idents (enabled (snd (discover 0 (Some ()) (serving [None, None])) 0)) = [0, 1]
   \<and> idents (disabled (snd (discover 0 (Some ()) (serving [None, None])) 0)) = [1]"
  by (simp add: run_simps)

text \<open>
  C4. A check that throws would put its pagelet in \<open>disabled\<close> and leave the evaluation of
  the other pagelets alone. The code has nothing that catches the exception. As amended:
  take a pagelet whose check throws, having called \<open>done\<close> at most once before, on a page
  where no check before it throws or calls \<open>done\<close> before it returns. Then \<open>discover\<close>
  throws that exception, and \<open>rejection\<close> has not been called on the pagelets after
  it. When \<open>discover\<close> throws, \<open>acceptance\<close> has run only if the pagelet is the last
  one and its check had called \<open>done\<close>, with the pagelets before it as \<open>allowed\<close>, and
  itself too if it had called \<open>done(true)\<close>; in every other case the heap is then as it
  was before the call: neither \<open>enabled\<close> nor \<open>disabled\<close> has been assigned.
\<close>

theorem raising_check_leaves_discover:
  assumes "pagelets (h this) = Array fs"
    and "k < length fs"
    and "list_all (quiet req) (take k fs)"
    and "fs ! k = Some f"
    and "before_raise (f req) = Some (bs, e)"
    and "length bs \<le> 1"
  shows "discover this req h =
          (Throws e,
           if bs \<noteq> [] \<and> Suc k = length fs
           then acceptance this (map allocate (enumerate 0 fs))
                  (map allocate (enumerate 0 (take k fs))
                     @ (if bs = [True] then [allocate (k, fs ! k)] else [])) h
           else h)
       \<and> started (fst (snd (discover_run this req h))) = [0..<Suc k]"
proof -
  from discover_raising [of h this fs k req f bs e] assms obtain c' where
    "discover_run this req h =
          (Some e, c',
           if bs \<noteq> [] \<and> Suc k = length fs
           then acceptance this (map allocate (enumerate 0 fs))
                  (map allocate (enumerate 0 (take k fs))
                     @ (if bs = [True] then [allocate (k, fs ! k)] else [])) h
           else h)"
    "started c' = [0..<Suc k]"
    by blast
  then show ?thesis by (simp add: discover_outcome)
qed

theorem raising_check_leaves_discover_witness:
  "pagelets ((serving [None, Some (\<lambda>req. [Raise (Authorize_error ''denied'')]), None] :: unit heap) 0)
     = Array [None, Some (\<lambda>req. [Raise (Authorize_error ''denied'')]), None]
   \<and> (1 :: nat) < length [None, Some (\<lambda>req :: unit option. [Raise (Authorize_error ''denied'')]), None]
   \<and> list_all (quiet None)
        (take 1 [None, Some (\<lambda>req :: unit option. [Raise (Authorize_error ''denied'')]), None])
   \<and> [None, Some (\<lambda>req :: unit option. [Raise (Authorize_error ''denied'')]), None] ! 1
       = Some (\<lambda>req. [Raise (Authorize_error ''denied'')])
   \<and> before_raise [Raise (Authorize_error ''denied'')] = Some ([], Authorize_error ''denied'')
   \<and> length ([] :: bool list) \<le> 1
   \<and> discover 0 None (serving [None, Some (\<lambda>req. [Raise (Authorize_error ''denied'')]), None] :: unit heap)
       = (Throws (Authorize_error ''denied''),
          serving [None, Some (\<lambda>req. [Raise (Authorize_error ''denied'')]), None])
   \<and> started (fst (snd (discover_run 0 None
        (serving [None, Some (\<lambda>req. [Raise (Authorize_error ''denied'')]), None] :: unit heap)))) = [0, 1]"
proof -
  let ?f = "\<lambda>req :: unit option. [Raise (Authorize_error ''denied'')]"
  let ?fs = "[None, Some ?f, None]"
  have a: "pagelets ((serving ?fs) 0) = Array ?fs" by (simp add: serving_def)
  have b: "(1 :: nat) < length ?fs" by simp
  have c: "list_all (quiet None) (take 1 ?fs)" by simp
  have d: "?fs ! 1 = Some ?f" by simp
  have e: "before_raise (?f None) = Some ([], Authorize_error ''denied'')" by simp
  have f: "length ([] :: bool list) \<le> 1" by simp
  have g: "[0..<Suc 1] = [0, 1]" by (simp add: upt_rec)
  show ?thesis
    using a b c d e f g
      raising_check_leaves_discover [of "serving ?fs" 0 ?fs 1 None ?f "[]" "Authorize_error ''denied''"]
    by simp
qed

text \<open>
  The pagelet whose check throws is not in \<open>disabled\<close>, and the pagelet after it, which
  has no check, is not in \<open>enabled\<close>: \<open>discover\<close> ends with the exception of the check.
\<close>

theorem raising_check_counterexample:
  "fst (discover 0 (Some ()) (serving [Some (\<lambda>req. [Raise (Authorize_error ''denied'')]), None]))
     = Throws (Authorize_error ''denied'')
   \<and> 0 \<notin> set (idents (disabled (snd (discover 0 (Some ())
         (serving [Some (\<lambda>req. [Raise (Authorize_error ''denied'')]), None])) 0)))
   \<and> 1 \<notin> set (idents (enabled (snd (discover 0 (Some ())
         (serving [Some (\<lambda>req. [Raise (Authorize_error ''denied'')]), None])) 0)))"
  by (simp add: run_simps)

text \<open>
  A single pagelet whose check calls \<open>done(false)\<close> and then throws: \<open>acceptance\<close> runs
  on the first call, with nothing allowed, before the exception leaves \<open>discover\<close>.
\<close>

lemma check_calls_done_then_throws:
  "fst (discover 0 (Some ()) (serving [Some (\<lambda>req. [Call False, Raise (Authorize_error ''denied'')])]))
     = Throws (Authorize_error ''denied'')
   \<and> idents (enabled (snd (discover 0 (Some ())
         (serving [Some (\<lambda>req. [Call False, Raise (Authorize_error ''denied'')])])) 0)) = []
   \<and> idents (disabled (snd (discover 0 (Some ())
         (serving [Some (\<lambda>req. [Call False, Raise (Authorize_error ''denied'')])])) 0)) = [0]"
  by (simp add: run_simps)

text \<open>
  C6. A pagelet without an authorization check would always be placed in \<open>enabled\<close>. It
  is not when \<open>discover\<close> ends with an exception before \<open>acceptance\<close> has run. As
  amended: when no check of the page throws or calls \<open>done\<close> before it returns,
  \<open>discover\<close> returns and every pagelet without a check is in \<open>enabled\<close>.
\<close>

theorem unchecked_pagelet_enabled:
  assumes "pagelets (h this) = Array fs"
    and "list_all (quiet req) fs"
    and "i < length fs"
    and "fs ! i = None"
  shows "fst (discover this req h) = Returns ()
       \<and> Some (allocate (i, None)) \<in> set (enabled (snd (discover this req h) this))"
proof -
  let ?ps = "map allocate (enumerate 0 fs)"
  have d: "discover this req h = (Returns (), acceptance this ?ps ?ps h)"
    using assms(1,2) by (rule discover_quiet)
  then have "enabled (snd (discover this req h) this) = map Some ?ps"
    by (simp add: acceptance_def)
  moreover have "allocate (i, None) \<in> set ?ps"
    using allocate_in_pagelets [OF assms(3)] assms(4) by simp
  ultimately have "Some (allocate (i, None)) \<in> set (enabled (snd (discover this req h) this))"
    by force
  then show ?thesis using d by simp
qed

theorem unchecked_pagelet_enabled_witness:
  "pagelets ((serving [Some (\<lambda>req. [Call_later False]), None] :: unit heap) 0)
     = Array [Some (\<lambda>req. [Call_later False]), None]
   \<and> list_all (quiet None) [Some (\<lambda>req :: unit option. [Call_later False]), None]
   \<and> (1 :: nat) < length [Some (\<lambda>req :: unit option. [Call_later False]), None]
   \<and> [Some (\<lambda>req :: unit option. [Call_later False]), None] ! 1 = None
   \<and> fst (discover 0 None (serving [Some (\<lambda>req. [Call_later False]), None] :: unit heap)) = Returns ()
   \<and> Some (allocate (1, None))
       \<in> set (enabled (snd (discover 0 None (serving [Some (\<lambda>req. [Call_later False]), None] :: unit heap)) 0))"
proof -
  let ?fs = "[Some (\<lambda>req :: unit option. [Call_later False]), None]"
  have a: "pagelets ((serving ?fs) 0) = Array ?fs" by (simp add: serving_def)
  have b: "list_all (quiet None) ?fs" by simp
  have c: "(1 :: nat) < length ?fs" by simp
  have d: "?fs ! 1 = None" by simp
  show ?thesis
    using a b c d unchecked_pagelet_enabled [of "serving ?fs" 0 ?fs None 1] by blast
qed

text \<open>
  The first pagelet has no check and the check of the second throws: \<open>discover\<close> ends
  with the exception and the first pagelet is not in \<open>enabled\<close>.
\<close>

theorem unchecked_pagelet_counterexample:
  "[None, Some (\<lambda>req :: unit option. [Raise (Authorize_error ''denied'')])] ! 0 = None
   \<and> 0 \<notin> set (idents (enabled (snd (discover 0 (Some ())
         (serving [None, Some (\<lambda>req. [Raise (Authorize_error ''denied'')])])) 0)))"
  by (simp add: run_simps)

section \<open>What configure resets, passes on and returns\<close>

text \<open>
  C3. After the reset of \<open>configure\<close>, before \<open>discover\<close> runs, \<open>connections\<close>,
  \<open>conditional\<close>, \<open>enabled\<close> and \<open>disabled\<close> would all be empty. The third loop of the
  reset runs over the keys of \<open>disabled\<close> and deletes them from \<open>enabled\<close>, so
  \<open>disabled\<close> keeps what it held: on a page that has served one request with two
  pagelets without a check, the second pagelet is still in \<open>disabled\<close> after the reset
  (and \<open>enabled\<close> is two holes long).
\<close>

theorem reset_keeps_disabled:
  "fst (configure 0 (Some ()) () (serving [None, None])) = Returns 0
   \<and> idents (disabled (snd (reset (snd (configure 0 (Some ()) () (serving [None, None])) 0)))) = [1]
   \<and> enabled (snd (reset (snd (configure 0 (Some ()) () (serving [None, None])) 0))) = [None, None]"
  by (simp add: run_simps configure_def reset_eq)

text \<open>
  C5. \<open>configure(req, res)\<close> would call \<open>discover\<close> with its request, so that the checks
  see it. The code calls \<open>this.discover()\<close>: the checks get \<open>undefined\<close>. With a pagelet
  whose check reads the request, \<open>configure\<close> throws the exception of that check on a
  request for which \<open>discover\<close>, given the same request, returns; and \<open>configure\<close> does
  the same with and without a request.
\<close>

theorem configure_drops_request:
  "fst (configure 0 (Some True) () (serving [Some needs_request]))
     = Throws (Authorize_error ''req is undefined'')
   \<and> fst (discover 0 (Some True)
            ((serving [Some needs_request])(0 := snd (reset (serving [Some needs_request] 0))))) = Returns ()
   \<and> configure 0 (Some True) () (serving [Some needs_request])
     = configure 0 None () (serving [Some needs_request])"
  by (simp add: run_simps configure_def reset_eq needs_request_def)



text \<open>
  C8. Two calls of \<open>configure\<close> in succession would give the same partition. They do not
  when a listener throws while the first call removes the listeners: the first call ends
  there, before \<open>discover\<close>, and the second goes on to \<open>discover\<close>. As amended: when no
  listener throws while the first call removes the listeners, a second call of
  \<open>configure\<close>, right after the first and with any request, gives the same result and
  leaves the page, with its \<open>enabled\<close> and \<open>disabled\<close>, as the first call left it.
\<close>

theorem configure_twice:
  assumes "fst (removeAllListeners (listeners (h this))) = None"
  shows "configure this req' res' (snd (configure this req res h)) = configure this req res h"
proof -
  let ?p1 = "snd (reset (h this))"
  let ?h1 = "h(this := ?p1)"
  let ?h2 = "snd (discover this None ?h1)"
  have p1: "connections ?p1 = []" "conditional ?p1 = []" "listeners ?p1 = []"
    "enabled ?p1 = replicate (length (enabled (h this))) None"
    using assms by (simp_all add: reset_eq removeAllListeners_done)
  have first: "configure this req res h =
      (case fst (discover this None ?h1) of Returns u \<Rightarrow> Returns this | Throws e \<Rightarrow> Throws e, ?h2)"
    using assms by (rule configure_discover)
  have l2: "listeners (?h2 this) = []"
    using discover_frame [of this None ?h1] p1(3) by simp
  then have again: "fst (removeAllListeners (listeners (?h2 this))) = None" by simp
  let ?h3 = "?h2(this := snd (reset (?h2 this)))"
  have second: "configure this req' res' ?h2 =
      (case fst (discover this None ?h3) of Returns u \<Rightarrow> Returns this | Throws e \<Rightarrow> Throws e,
       snd (discover this None ?h3))"
    using again by (rule configure_discover)
  have "discover this None ?h3 = discover this None ?h1"
  proof (cases "pagelets (h this)")
    case Plain_object
    then have "pagelets (?h1 this) = Plain_object" by (simp add: reset_eq)
    then have d1: "discover this None ?h1 = (Throws TypeError, ?h1)"
      by (simp add: discover_outcome discover_run_Plain_object)
    then have "?h3 = ?h1" using p1 by (simp add: reset_eq)
    then show ?thesis by simp
  next
    case (Array fs)
    let ?ps = "map allocate (enumerate 0 fs)"
    let ?cb = "acceptance this ?ps"
    obtain e c l where r: "async_filter ?ps (rejection None) record_last None = (e, c, l)"
      using prod_cases3 by blast
    have a1: "pagelets (?h1 this) = Array fs" using Array by (simp add: reset_eq)
    have d1: "discover this None ?h1 = (outcome e, fire ?cb l ?h1)"
      using discover_run_replay [of ?h1 this fs None] a1 r by (simp add: discover_outcome replay_def)
    have a3: "pagelets (?h3 this) = Array fs"
      using a1 discover_frame [of this None ?h1] by (simp add: reset_eq)
    have d3: "discover this None ?h3 = (outcome e, fire ?cb l ?h3)"
      using discover_run_replay [of ?h3 this fs None] a3 r by (simp add: discover_outcome replay_def)
    have "fire ?cb l ?h3 = fire ?cb l ?h1"
    proof (cases l)
      case None
      then show ?thesis using d1 p1 by (simp add: reset_eq)
    next
      case (Some a)
      then show ?thesis using d1 p1 by (simp add: acceptance_def reset_eq)
    qed
    then show ?thesis using d1 d3 by simp
  qed
  then show ?thesis using first second by simp
qed

theorem configure_twice_witness:
  "fst (removeAllListeners (listeners ((listening watched (serving [None, None]) :: unit heap) 0))) = None
   \<and> configure 0 (Some ()) () (snd (configure 0 (Some ()) () (listening watched (serving [None, None]) :: unit heap)))
     = configure 0 (Some ()) () (listening watched (serving [None, None]))
   \<and> idents (enabled (snd (configure 0 (Some ()) () (listening watched (serving [None, None]) :: unit heap)) 0)) = [0, 1]"
proof -
  let ?h = "listening watched (serving [None, None]) :: unit heap"
  have a: "fst (removeAllListeners (listeners (?h 0))) = None"
    by (simp add: listener_simps)
  have b: "idents (enabled (snd (configure 0 (Some ()) () ?h) 0)) = [0, 1]"
    by (simp add: run_simps listener_simps configure_def reset_eq)
  show ?thesis
    using a b configure_twice [of ?h 0 "Some ()" "()" "Some ()" "()"] by simp
qed

text \<open>
  A page with one pagelet and a listener of \<open>'removeListener'\<close> that throws: the first
  call throws what the listener throws and enables nothing; the second returns and
  enables the pagelet.
\<close>

theorem configure_twice_counterexample:
  "fst (configure 0 (Some ()) () (listening guarded (serving [None]))) = Throws (Listener_error ''boom'')
   \<and> idents (enabled (snd (configure 0 (Some ()) () (listening guarded (serving [None]))) 0)) = []
   \<and> fst (configure 0 (Some ()) () (snd (configure 0 (Some ()) () (listening guarded (serving [None])))))
       = Returns 0
   \<and> idents (enabled (snd (configure 0 (Some ()) ()
         (snd (configure 0 (Some ()) () (listening guarded (serving [None]))))) 0)) = [0]"
  by (simp add: run_simps listener_simps configure_def reset_eq)

text \<open>
  C9. \<open>configure\<close> would return the page it was called on, on every call. It returns
  nothing when the removal of the listeners or \<open>discover\<close> throws. As amended: on a page
  whose \<open>pagelets\<close> is an array, when no listener throws while the listeners are removed
  and no check throws or calls \<open>done\<close> before it returns, \<open>configure\<close> returns the page
  it was called on.
\<close>

theorem configure_returns_receiver:
  assumes "pagelets (h this) = Array fs"
    and "\<forall>r. list_all (quiet r) fs"
    and "fst (removeAllListeners (listeners (h this))) = None"
  shows "fst (configure this req res h) = Returns this"
proof -
  let ?h1 = "h(this := snd (reset (h this)))"
  have "pagelets (?h1 this) = Array fs"
    using assms(1) by (simp add: reset_eq)
  moreover have "list_all (quiet None) fs" using assms(2) by blast
  ultimately have "fst (discover this None ?h1) = Returns ()"
    using discover_quiet [of ?h1 this fs None] by simp
  then show ?thesis
    using configure_discover [of h this req res] assms(3) by simp
qed

theorem configure_returns_receiver_witness:
  "pagelets ((listening watched (serving [None, Some (\<lambda>req. [Call_later True])]) :: unit heap) 0)
     = Array [None, Some (\<lambda>req. [Call_later True])]
   \<and> (\<forall>r. list_all (quiet r) [None, Some (\<lambda>req :: unit option. [Call_later True])])
   \<and> fst (removeAllListeners (listeners
        ((listening watched (serving [None, Some (\<lambda>req. [Call_later True])]) :: unit heap) 0))) = None
   \<and> fst (configure 0 (Some ()) () (listening watched (serving [None, Some (\<lambda>req. [Call_later True])])))
       = Returns 0"
proof -
  let ?fs = "[None, Some (\<lambda>req :: unit option. [Call_later True])]"
  let ?h = "listening watched (serving ?fs)"
  have a: "pagelets (?h 0) = Array ?fs" by (simp add: serving_def listening_def)
  have b: "\<forall>r. list_all (quiet r) ?fs" by simp
  have c: "fst (removeAllListeners (listeners (?h 0))) = None" by (simp add: listener_simps)
  show ?thesis
    using a b c configure_returns_receiver [of ?h 0 ?fs "Some ()" "()"] by blast
qed

text \<open>
  On a page as the constructor left it, \<open>configure\<close> does not return the page.
\<close>

theorem configure_throws_counterexample:
  "fst (configure 0 (Some ()) () new_pages) \<noteq> Returns 0"
  by (simp add: configure_def discover_def discover_run_def new_pages_def Page_def reset_eq)

section \<open>The default value of pagelets\<close>

text \<open>
  C10. On a page whose \<open>pagelets\<close> is still the plain object of the prototype,
  \<open>discover\<close> throws a TypeError (the object has no \<open>map\<close>) and assigns no partition.
  So \<open>configure\<close> does not return on such a page either: it throws that TypeError,
  unless a listener has thrown before, while the listeners were removed.
\<close>

theorem discover_needs_array:
  assumes "pagelets (h this) = Plain_object"
  shows "discover this req h = (Throws TypeError, h)
       \<and> fst (configure this req res h) =
           (case fst (removeAllListeners (listeners (h this))) of
              None \<Rightarrow> Throws TypeError | Some e \<Rightarrow> Throws e)"
proof -
  have d: "discover this req h = (Throws TypeError, h)"
    using assms by (simp add: discover_outcome discover_run_Plain_object)
  have "fst (configure this req res h) =
           (case fst (removeAllListeners (listeners (h this))) of
              None \<Rightarrow> Throws TypeError | Some e \<Rightarrow> Throws e)"
  proof (cases "fst (removeAllListeners (listeners (h this)))")
    case (Some e)
    then show ?thesis using configure_reset_throws [of h this e req res] by simp
  next
    case None
    let ?h1 = "h(this := snd (reset (h this)))"
    have "pagelets (?h1 this) = Plain_object" using assms by (simp add: reset_eq)
    then have "discover this None ?h1 = (Throws TypeError, ?h1)"
      by (simp add: discover_outcome discover_run_Plain_object)
    then show ?thesis using configure_discover [of h this req res] None by simp
  qed
  then show ?thesis using d by simp
qed

theorem discover_needs_array_witness:
  "pagelets ((listening watched new_pages :: unit heap) 0) = Plain_object
   \<and> discover 0 None (listening watched new_pages :: unit heap) = (Throws TypeError, listening watched new_pages)
   \<and> fst (configure 0 None () (listening watched new_pages :: unit heap)) = Throws TypeError"
proof -
  let ?h = "listening watched new_pages :: unit heap"
  have p: "pagelets (?h 0) = Plain_object"
    by (simp add: new_pages_def Page_def listening_def)
  have r: "fst (removeAllListeners (listeners (?h 0))) = None"
    by (simp add: listener_simps)
  show ?thesis
    using p r discover_needs_array [of ?h 0 None "()"] by simp
qed

end
